theory Spec2Isabelle
  imports Complex_Main "HOL-Library.AList"
begin

section \<open>Python values used by \<open>pagerank.py\<close>\<close>

text \<open>
  The program works on dictionaries, sets, lists and floats. A dictionary is an association
  list in insertion order (the order matters: \<open>iterate_pagerank\<close> updates ranks in place,
  page after page). A set is given by a list that enumerates its elements; \<open>len\<close> of a
  set counts the distinct elements. A Python \<open>float\<close> is a \<open>real\<close>: arithmetic is exact,
  so the theorems below are about the program up to the rounding of IEEE doubles.
  An exception is the left summand of a result.
\<close>

datatype error = KeyError | IndexError | ZeroDivisionError | UnboundLocalError

type_synonym page = string
type_synonym corpus = "(page \<times> page list) list"
type_synonym table = "(page \<times> real) list"

definition err_bind :: "error + 'a \<Rightarrow> ('a \<Rightarrow> error + 'b) \<Rightarrow> error + 'b" where
  "err_bind m f = (case m of Inl e \<Rightarrow> Inl e | Inr x \<Rightarrow> f x)"

text \<open>A \<open>for\<close> loop over a list whose body may raise: the first exception ends it.\<close>

fun for_each :: "'a list \<Rightarrow> ('a \<Rightarrow> 's \<Rightarrow> error + 's) \<Rightarrow> 's \<Rightarrow> error + 's" where
  "for_each [] body s = Inr s"
| "for_each (x # xs) body s =
     (case body x s of Inl e \<Rightarrow> Inl e | Inr s' \<Rightarrow> for_each xs body s')"

text \<open>\<open>d[k]\<close> raises \<open>KeyError\<close> on a missing key; \<open>d[k] = v\<close> replaces the value of a
  key in place or appends a new entry.\<close>

definition lookup :: "('k \<times> 'v) list \<Rightarrow> 'k \<Rightarrow> error + 'v" where
  "lookup d k = (case map_of d k of None \<Rightarrow> Inl KeyError | Some v \<Rightarrow> Inr v)"

abbreviation dict_set :: "('k \<times> 'v) list \<Rightarrow> 'k \<Rightarrow> 'v \<Rightarrow> ('k \<times> 'v) list" where
  "dict_set d k v \<equiv> AList.update k v d"

abbreviation keys :: "('k \<times> 'v) list \<Rightarrow> 'k list" where
  "keys d \<equiv> map fst d"

abbreviation dict_values :: "('k \<times> 'v) list \<Rightarrow> 'v list" where
  "dict_values d \<equiv> map snd d"

definition len_set :: "'a list \<Rightarrow> nat" where
  "len_set xs = card (set xs)"

definition py_div :: "real \<Rightarrow> real \<Rightarrow> error + real" where
  "py_div x y = (if y = 0 then Inl ZeroDivisionError else Inr (x / y))"

text \<open>\<open>round(x, 4)\<close>: the nearest multiple of \<open>0.0001\<close>, a tie going to the even one.\<close>

definition round_half_even :: "real \<Rightarrow> int" where
  "round_half_even y =
     (let f = \<lfloor>y\<rfloor>; r = y - of_int f
      in if r < 1 / 2 then f else if 1 / 2 < r then f + 1 else if even f then f else f + 1)"

definition py_round4 :: "real \<Rightarrow> real" where
  "py_round4 x = of_int (round_half_even (x * 10000)) / 10000"

section \<open>\<open>transition_model\<close>\<close>

definition transition_model :: "corpus \<Rightarrow> page \<Rightarrow> real \<Rightarrow> error + table" where
  "transition_model corpus page damping_factor =
     err_bind (lookup corpus page) (\<lambda>links.
       if len_set links = 0 then
         err_bind (py_div damping_factor (real (length corpus))) (\<lambda>a.
         err_bind (py_div (1 - damping_factor) (real (length corpus))) (\<lambda>b.
           let equal_probablity = a + b
           in Inr (fold (\<lambda>pages pd. dict_set pd pages equal_probablity) (keys corpus) [])))
       else
         err_bind (py_div damping_factor (real (len_set links))) (\<lambda>a.
         err_bind (py_div (1 - damping_factor) (real (length corpus))) (\<lambda>b.
           let link_probablity = py_round4 a;
               equal_probablity = py_round4 b;
               pd1 = fold (\<lambda>links pd. dict_set pd links (equal_probablity + link_probablity))
                       links [];
               pd2 = fold (\<lambda>pages pd. if pages \<in> set (keys pd) then pd
                                        else dict_set pd pages equal_probablity)
                       (keys corpus) pd1
           in Inr pd2)))"

section \<open>\<open>sample_pagerank\<close>\<close>

text \<open>
  The module \<open>random\<close> is not part of the program: the random source is a parameter.
  \<open>choice rnd xs\<close> is what \<open>random.choice(xs)\<close> returns on a non-empty list, and
  \<open>choices rnd i xs ws\<close> is the page that the \<open>i\<close>-th call \<open>random.choices(xs, weights = ws)[0]\<close>
  returns.
\<close>

record rng =
  choice :: "page list \<Rightarrow> page"
  choices :: "nat \<Rightarrow> page list \<Rightarrow> real list \<Rightarrow> page"

text \<open>The loop \<open>for i in range(n)\<close>: the state is \<open>(current_page, samples)\<close>.\<close>

definition draw_samples :: "rng \<Rightarrow> corpus \<Rightarrow> real \<Rightarrow> int \<Rightarrow> page \<Rightarrow> error + page \<times> page list" where
  "draw_samples rnd corpus damping_factor n start =
     for_each [0..<nat n]
       (\<lambda>i (current_page, samples).
          err_bind (transition_model corpus current_page damping_factor) (\<lambda>transitions.
            let next_page = choices rnd i (keys transitions) (dict_values transitions)
            in Inr (next_page, samples @ [next_page])))
       (start, [])"

text \<open>The visit counts: \<open>0\<close> for every page of the corpus, then one more for each sample.\<close>

definition count_samples :: "corpus \<Rightarrow> page list \<Rightarrow> error + table" where
  "count_samples corpus samples =
     for_each samples
       (\<lambda>vals sd. err_bind (lookup sd vals) (\<lambda>c. Inr (dict_set sd vals (c + 1))))
       (fold (\<lambda>pages sd. dict_set sd pages 0) (keys corpus) [])"

text \<open>The loop over \<open>samples_dict.items()\<close> that divides every count by \<open>n\<close>.\<close>

definition normalise :: "table \<Rightarrow> int \<Rightarrow> error + table" where
  "normalise samples_dict n =
     for_each samples_dict
       (\<lambda>(ks, vals) sd. err_bind (py_div vals (of_int n)) (\<lambda>q. Inr (dict_set sd ks q)))
       samples_dict"

definition sample_pagerank :: "rng \<Rightarrow> corpus \<Rightarrow> real \<Rightarrow> int \<Rightarrow> error + table" where
  "sample_pagerank rnd corpus damping_factor n =
     (if keys corpus = [] then Inl IndexError
      else
        err_bind (draw_samples rnd corpus damping_factor n (choice rnd (keys corpus)))
          (\<lambda>(current_page, samples).
             err_bind (count_samples corpus samples) (\<lambda>samples_dict.
               normalise samples_dict n)))"

section \<open>\<open>iterate_pagerank\<close>\<close>

text \<open>The first loop: every rank is \<open>1 / N\<close>, every list of backlinks is empty.\<close>

definition init_tables :: "corpus \<Rightarrow> error + table \<times> (page \<times> page list) list" where
  "init_tables corpus =
     for_each (keys corpus)
       (\<lambda>pages (iterative_probablity, cross_link_corpus).
          err_bind (py_div 1 (real (length corpus))) (\<lambda>r.
            Inr (dict_set iterative_probablity pages r, dict_set cross_link_corpus pages [])))
       ([], [])"

text \<open>The second loop: \<open>cross_link_corpus[page]\<close> lists, in the order of the corpus, the
  pages that link to \<open>page\<close>.\<close>

definition add_backlinks ::
  "corpus \<Rightarrow> (page \<times> page list) list \<Rightarrow> error + (page \<times> page list) list" where
  "add_backlinks corpus cross_link_corpus =
     for_each (keys cross_link_corpus)
       (\<lambda>page clc.
          for_each (keys corpus)
            (\<lambda>ks clc.
               err_bind (lookup corpus ks) (\<lambda>links.
                 if page \<in> set links
                 then err_bind (lookup clc page) (\<lambda>bl. Inr (dict_set clc page (bl @ [ks])))
                 else Inr clc))
            clc)
       cross_link_corpus"

text \<open>The local variables of the \<open>while\<close> loop that outlive a pass. \<open>old_rank\<close> and
  \<open>page_rank\<close> are unbound until a page has been updated.\<close>

record loop_vars =
  iterative_probablity :: table
  old_rank :: "real option"
  page_rank :: "real option"

text \<open>The sum that the branch for a page without backlinks computes, over all pages
  with at least one link.\<close>

definition ranged_sum_all :: "corpus \<Rightarrow> table \<Rightarrow> error + real" where
  "ranged_sum_all corpus ip =
     for_each (keys ip)
       (\<lambda>pages ranged_sum.
          err_bind (lookup corpus pages) (\<lambda>links.
            let number_of_links = len_set links
            in if number_of_links \<noteq> 0
               then err_bind (lookup ip pages) (\<lambda>r.
                      err_bind (py_div r (real number_of_links)) (\<lambda>q. Inr (ranged_sum + q)))
               else Inr ranged_sum))
       0"

text \<open>The sum over the backlinks of a page.\<close>

definition ranged_sum_links :: "corpus \<Rightarrow> table \<Rightarrow> page list \<Rightarrow> error + real" where
  "ranged_sum_links corpus ip backlinks =
     for_each backlinks
       (\<lambda>links ranged_sum.
          err_bind (lookup corpus links) (\<lambda>ls.
            let number_of_links = len_set ls
            in err_bind (lookup ip links) (\<lambda>r.
                 err_bind (py_div r (real number_of_links)) (\<lambda>q. Inr (ranged_sum + q)))))
       0"

text \<open>The body of \<open>for pages in iterative_probablity\<close>. In the first branch the sum is
  computed and then dropped by \<open>continue\<close>: the page keeps its rank, and \<open>old_rank\<close> and
  \<open>page_rank\<close> keep their values.\<close>

definition page_body ::
  "corpus \<Rightarrow> (page \<times> page list) list \<Rightarrow> real \<Rightarrow> page \<Rightarrow> loop_vars \<Rightarrow> error + loop_vars" where
  "page_body corpus cross_link_corpus damping_factor pages st =
     err_bind (lookup cross_link_corpus pages) (\<lambda>backlinks.
       if length backlinks = 0 then
         err_bind (ranged_sum_all corpus (iterative_probablity st)) (\<lambda>ranged_sum. Inr st)
       else
         err_bind (ranged_sum_links corpus (iterative_probablity st) backlinks) (\<lambda>ranged_sum.
         err_bind (py_div (1 - damping_factor) (real (length corpus))) (\<lambda>b.
           let pr = b + damping_factor * ranged_sum
           in err_bind (lookup (iterative_probablity st) pages) (\<lambda>old.
                Inr \<lparr>iterative_probablity = dict_set (iterative_probablity st) pages pr,
                     old_rank = Some old, page_rank = Some pr\<rparr>))))"

definition pass :: "corpus \<Rightarrow> (page \<times> page list) list \<Rightarrow> real \<Rightarrow> loop_vars \<Rightarrow> error + loop_vars" where
  "pass corpus cross_link_corpus damping_factor st =
     for_each (keys (iterative_probablity st)) (page_body corpus cross_link_corpus damping_factor) st"

text \<open>\<open>while True\<close>: the loop has no bound in the program, so the model counts passes.
  \<open>None\<close> says that the loop has not stopped within \<open>fuel\<close> passes.\<close>

fun while_true ::
  "nat \<Rightarrow> corpus \<Rightarrow> (page \<times> page list) list \<Rightarrow> real \<Rightarrow> loop_vars \<Rightarrow> (error + table) option" where
  "while_true 0 corpus cross_link_corpus damping_factor st = None"
| "while_true (Suc fuel) corpus cross_link_corpus damping_factor st =
     (case pass corpus cross_link_corpus damping_factor st of
        Inl e \<Rightarrow> Some (Inl e)
      | Inr st' \<Rightarrow>
          (case (old_rank st', page_rank st') of
             (Some old, Some pr) \<Rightarrow>
               if \<bar>old - pr\<bar> < 0.0001 then Some (Inr (iterative_probablity st'))
               else while_true fuel corpus cross_link_corpus damping_factor st'
           | _ \<Rightarrow> Some (Inl UnboundLocalError)))"

text \<open>The code before the \<open>while\<close> loop: the initial ranks and the backlink table.\<close>

definition setup_tables :: "corpus \<Rightarrow> error + table \<times> (page \<times> page list) list" where
  "setup_tables corpus =
     err_bind (init_tables corpus) (\<lambda>(ip, clc0).
       err_bind (add_backlinks corpus clc0) (\<lambda>clc. Inr (ip, clc)))"

definition iterate_pagerank :: "nat \<Rightarrow> corpus \<Rightarrow> real \<Rightarrow> (error + table) option" where
  "iterate_pagerank fuel corpus damping_factor =
     (case setup_tables corpus of
        Inl e \<Rightarrow> Some (Inl e)
      | Inr (ip, clc) \<Rightarrow>
          while_true fuel corpus clc damping_factor
            \<lparr>iterative_probablity = ip, old_rank = None, page_rank = None\<rparr>)"

section \<open>Auxiliary definitions\<close>

text \<open>The table that \<open>transition_model\<close> builds for a page with links
  (see \<open>transition_model_links\<close> below).\<close>

definition linked_table :: "corpus \<Rightarrow> page list \<Rightarrow> real \<Rightarrow> table" where
  "linked_table corpus links damping_factor =
     (let link_probablity = py_round4 (damping_factor / real (len_set links));
          equal_probablity = py_round4 ((1 - damping_factor) / real (length corpus))
      in fold (\<lambda>pages pd. if pages \<in> set (keys pd) then pd
                           else dict_set pd pages equal_probablity)
           (keys corpus)
           (fold (\<lambda>links pd. dict_set pd links (equal_probablity + link_probablity)) links []))"

text \<open>The invariant of a corpus that \<open>crawl\<close> establishes: every link leads to a page of
  the corpus.\<close>

definition links_closed :: "corpus \<Rightarrow> bool" where
  "links_closed corpus \<longleftrightarrow> (\<forall>(p, links) \<in> set corpus. set links \<subseteq> set (keys corpus))"

text \<open>What is assumed of the random source: a draw from a non-empty population returns one
  of its elements.\<close>

definition rng_ok :: "rng \<Rightarrow> bool" where
  "rng_ok rnd \<longleftrightarrow>
     (\<forall>xs. xs \<noteq> [] \<longrightarrow> choice rnd xs \<in> set xs) \<and>
     (\<forall>i xs ws. xs \<noteq> [] \<longrightarrow> choices rnd i xs ws \<in> set xs)"

text \<open>A random source for examples: it starts at the first page, and the draws alternate
  between the last and the first element of the population.\<close>

definition first_last_rng :: rng where
  "first_last_rng = \<lparr>choice = hd, choices = (\<lambda>i xs ws. if even i then last xs else hd xs)\<rparr>"

text \<open>What the second loop of \<open>iterate_pagerank\<close> guarantees of the backlink table: it has
  the keys of the corpus, and a page listed under \<open>p\<close> links to \<open>p\<close>.\<close>

definition backlinks_ok :: "corpus \<Rightarrow> (page \<times> page list) list \<Rightarrow> bool" where
  "backlinks_ok corpus clc \<longleftrightarrow>
     set (keys clc) = set (keys corpus) \<and>
     (\<forall>p bl q. map_of clc p = Some bl \<and> q \<in> set bl \<longrightarrow>
        (\<exists>links. map_of corpus q = Some links \<and> p \<in> set links))"

text \<open>
  The update rule in the words of the specification: a page without links counts as
  a page that links to all \<open>N\<close> pages, itself included.
\<close>

definition spec_outlinks :: "corpus \<Rightarrow> page \<Rightarrow> page list" where
  "spec_outlinks corpus q =
     (case map_of corpus q of
        None \<Rightarrow> []
      | Some links \<Rightarrow> if len_set links = 0 then keys corpus else links)"

definition spec_rank :: "corpus \<Rightarrow> real \<Rightarrow> (page \<Rightarrow> real) \<Rightarrow> page \<Rightarrow> real" where
  "spec_rank corpus d rank p =
     (1 - d) / real (length corpus) +
     d * (\<Sum>q\<leftarrow>keys corpus.
            if p \<in> set (spec_outlinks corpus q)
            then rank q / real (len_set (spec_outlinks corpus q)) else 0)"

section \<open>Dictionaries, loops and rounding\<close>

lemma lookup_Inr_iff: "lookup d k = Inr v \<longleftrightarrow> map_of d k = Some v"
  by (simp add: lookup_def split: option.splits)

lemma lookup_Inl_iff: "lookup d k = Inl e \<longleftrightarrow> e = KeyError \<and> k \<notin> set (keys d)"
  by (auto simp: lookup_def map_of_eq_None_iff split: option.splits dest: map_of_SomeD intro: rev_image_eqI)

lemma lookup_in_keys: "lookup d k = Inr v \<Longrightarrow> k \<in> set (keys d)"
  by (auto simp: lookup_Inr_iff dest: map_of_SomeD intro: rev_image_eqI)

lemma lookup_total: "k \<in> set (keys d) \<Longrightarrow> \<exists>v. lookup d k = Inr v"
  by (cases "lookup d k") (auto simp: lookup_Inl_iff)

lemma dict_set_new: "k \<notin> set (keys d) \<Longrightarrow> dict_set d k v = d @ [(k, v)]"
  by (induction d) auto



text \<open>A loop that stores one value under every key of a list, and the loop that fills in
  the keys still missing.\<close>

lemma fold_set_map_of:
  "map_of (fold (\<lambda>k pd. dict_set pd k v) ks pd) q =
     (if q \<in> set ks then Some v else map_of pd q)"
  by (induction ks arbitrary: pd) (auto simp: update_conv')

lemma fold_set_keys:
  "set (keys (fold (\<lambda>k pd. dict_set pd k v) ks pd)) = set ks \<union> set (keys pd)"
  by (induction ks arbitrary: pd) (auto simp: dom_update)


lemma fold_set_fresh:
  "distinct ks \<Longrightarrow> set ks \<inter> set (keys pd) = {} \<Longrightarrow>
   fold (\<lambda>k pd. dict_set pd k v) ks pd = pd @ map (\<lambda>k. (k, v)) ks"
proof (induction ks arbitrary: pd)
  case Nil
  then show ?case by simp
next
  case (Cons k ks)
  from Cons.prems have "k \<notin> set (keys pd)" by auto
  then have upd: "dict_set pd k v = pd @ [(k, v)]" by (rule dict_set_new)
  from Cons.prems have "distinct ks" "set ks \<inter> set (keys (pd @ [(k, v)])) = {}" by auto
  then have "fold (\<lambda>k pd. dict_set pd k v) ks (pd @ [(k, v)]) = (pd @ [(k, v)]) @ map (\<lambda>k. (k, v)) ks"
    by (rule Cons.IH)
  with upd show ?case by simp
qed


lemma fold_fill_keys:
  "set (keys (fold (\<lambda>k pd. if k \<in> set (keys pd) then pd else dict_set pd k v) ks pd)) =
     set ks \<union> set (keys pd)"
  by (induction ks arbitrary: pd) (auto simp: dom_update)



lemma dict_eq_map:
  "distinct (keys d) \<Longrightarrow> d = map (\<lambda>k. (k, the (map_of d k))) (keys d)"
proof (induction d)
  case Nil
  then show ?case by simp
next
  case (Cons kv d)
  obtain k v where kv: "kv = (k, v)" by (cases kv)
  from Cons.prems kv have notin: "k \<notin> set (keys d)" and dist: "distinct (keys d)" by auto
  have "map (\<lambda>x. (x, the (map_of (kv # d) x))) (keys d) = map (\<lambda>x. (x, the (map_of d x))) (keys d)"
    using notin kv by (intro map_cong) auto
  with Cons.IH [OF dist] kv show ?case by simp
qed


text \<open>Three ways to reason about a \<open>for\<close> loop: an invariant under which every step
  succeeds, an invariant of the steps that succeed, and the step that raised.\<close>

lemma for_each_total:
  assumes "I s"
    and "\<And>x s. x \<in> set xs \<Longrightarrow> I s \<Longrightarrow> \<exists>s'. body x s = Inr s' \<and> I s'"
  shows "\<exists>s'. for_each xs body s = Inr s' \<and> I s'"
  using assms
proof (induction xs arbitrary: s)
  case Nil
  then show ?case by simp
next
  case (Cons x xs)
  from Cons.prems obtain s1 where s1: "body x s = Inr s1" "I s1" by fastforce
  have "\<exists>s'. for_each xs body s1 = Inr s' \<and> I s'"
    using s1(2) Cons.prems(2) by (intro Cons.IH) auto
  with s1(1) show ?case by simp
qed

lemma for_each_preserves:
  assumes "for_each xs body s = Inr s'" and "I s"
    and "\<And>x s s'. x \<in> set xs \<Longrightarrow> I s \<Longrightarrow> body x s = Inr s' \<Longrightarrow> I s'"
  shows "I s'"
  using assms
proof (induction xs arbitrary: s)
  case Nil
  then show ?case by simp
next
  case (Cons x xs)
  from Cons.prems(1) obtain s1 where b: "body x s = Inr s1" and r: "for_each xs body s1 = Inr s'"
    by (auto split: sum.splits)
  from Cons.prems(2) b have "I s1" by (intro Cons.prems(3) [of x s s1]) simp_all
  moreover have "I t'" if "y \<in> set xs" and "I t" and "body y t = Inr t'" for y t t'
    using that Cons.prems(3) [of y t t'] by simp
  ultimately show ?case using r by (intro Cons.IH [of s1])
qed

lemma for_each_Inl:
  "for_each xs body s = Inl e \<Longrightarrow> \<exists>x \<in> set xs. \<exists>s0. body x s0 = Inl e"
proof (induction xs arbitrary: s)
  case Nil
  then show ?case by simp
next
  case (Cons x xs)
  show ?case
  proof (cases "body x s")
    case (Inl e')
    with Cons.prems show ?thesis by auto
  next
    case (Inr s')
    with Cons.prems have "for_each xs body s' = Inl e" by simp
    from Cons.IH [OF this] show ?thesis by auto
  qed
qed

section \<open>Properties of \<open>transition_model\<close>\<close>

lemma corpus_nonempty: "lookup corpus page = Inr links \<Longrightarrow> real (length corpus) \<noteq> 0"
  by (auto simp: lookup_Inr_iff)

lemma transition_model_links:
  assumes "lookup corpus page = Inr links" and "links \<noteq> []"
  shows "transition_model corpus page d = Inr (linked_table corpus links d)"
proof -
  from assms(2) have "len_set links \<noteq> 0" by (simp add: len_set_def)
  moreover from assms(1) have "real (length corpus) \<noteq> 0" by (rule corpus_nonempty)
  ultimately show ?thesis using assms(1)
    by (simp add: transition_model_def err_bind_def py_div_def linked_table_def Let_def)
qed

lemma transition_model_no_links:
  assumes "lookup corpus page = Inr []"
  shows "transition_model corpus page d =
         Inr (fold (\<lambda>pages pd. dict_set pd pages (d / real (length corpus) + (1 - d) / real (length corpus)))
                (keys corpus) [])"
proof -
  from assms have "real (length corpus) \<noteq> 0" by (rule corpus_nonempty)
  then show ?thesis using assms
    by (simp add: transition_model_def err_bind_def py_div_def len_set_def Let_def)
qed


lemma linked_table_keys:
  "set (keys (linked_table corpus links d)) = set (keys corpus) \<union> set links"
  unfolding linked_table_def Let_def fold_fill_keys fold_set_keys by simp






subsection \<open>The number of entries and their sum\<close>




subsection \<open>The probability of each page\<close>




subsection \<open>A page without links\<close>



subsection \<open>Failure\<close>

text \<open>
  Claim C8, amended. \<open>transition_model\<close> fails exactly when the page is not a key of the
  corpus, which is always so for the empty corpus, and the failure is the \<open>KeyError\<close> of the
  lookup \<open>corpus[page]\<close>. The damping factor is not inspected: no value of it makes the
  function fail.
\<close>

theorem transition_model_fails_iff:
  "transition_model corpus page d = Inl e \<longleftrightarrow> e = KeyError \<and> page \<notin> set (keys corpus)"
proof (cases "lookup corpus page")
  case (Inl e')
  then have "transition_model corpus page d = Inl e'"
    by (simp add: transition_model_def err_bind_def)
  with Inl show ?thesis by (auto simp: lookup_Inl_iff)
next
  case (Inr links)
  then have "page \<in> set (keys corpus)" by (rule lookup_in_keys)
  moreover have "\<exists>pd. transition_model corpus page d = Inr pd"
  proof (cases "links = []")
    case True
    with Inr show ?thesis by (simp add: transition_model_no_links)
  next
    case False
    with Inr show ?thesis by (simp add: transition_model_links)
  qed
  ultimately show ?thesis by auto
qed

text \<open>A missing page, the empty corpus, and a page of the corpus with the damping factor
  \<open>7\<close>.\<close>

theorem transition_model_fails_iff_witness:
  "transition_model [(''A.html'', [])] ''B.html'' 0.85 = Inl KeyError \<and>
   transition_model [] ''A.html'' 0.85 = Inl KeyError \<and>
   transition_model [(''A.html'', [])] ''A.html'' 7 \<noteq> Inl KeyError"
  using transition_model_fails_iff [of "[(''A.html'', [])]" "''B.html''" "0.85" KeyError]
    transition_model_fails_iff [of "[]" "''A.html''" "0.85" KeyError]
    transition_model_fails_iff [of "[(''A.html'', [])]" "''A.html''" 7 KeyError]
  by simp

text \<open>
  Claim C8 as stated has \<open>transition_model\<close> fail for a damping factor outside \<open>(0, 1)\<close>.
  With the damping factor \<open>2\<close> it returns a table, one of whose values is negative.
\<close>

theorem transition_model_no_validation_counterexample:
  "\<not> (0 < (2 :: real) \<and> (2 :: real) < 1) \<and>
   transition_model [(''A.html'', [''B.html'']), (''B.html'', [])] ''A.html'' 2 =
     Inr [(''B.html'', 1.5), (''A.html'', - 0.5)]"
  by (simp add: transition_model_def err_bind_def lookup_def py_div_def len_set_def
      py_round4_def round_half_even_def Let_def)


section \<open>Properties of \<open>sample_pagerank\<close>\<close>


lemma transition_model_keys:
  assumes "links_closed corpus" and "page \<in> set (keys corpus)"
  shows "\<exists>tr. transition_model corpus page d = Inr tr \<and> set (keys tr) = set (keys corpus)"
proof -
  from assms(2) have "\<exists>links. lookup corpus page = Inr links" by (rule lookup_total)
  then obtain links where l: "lookup corpus page = Inr links" ..
  then have "(page, links) \<in> set corpus"
    unfolding lookup_Inr_iff by (rule map_of_SomeD)
  with assms(1) have sub: "set links \<subseteq> set (keys corpus)"
    unfolding links_closed_def by blast
  show ?thesis
  proof (cases "links = []")
    case True
    let ?v = "d / real (length corpus) + (1 - d) / real (length corpus)"
    let ?tr = "fold (\<lambda>pages pd. dict_set pd pages ?v) (keys corpus) []"
    from True l have "lookup corpus page = Inr []" by simp
    then have "transition_model corpus page d = Inr ?tr" by (rule transition_model_no_links)
    moreover have "set (keys ?tr) = set (keys corpus)"
      using fold_set_keys [of ?v "keys corpus" "[]"] by simp
    ultimately have "transition_model corpus page d = Inr ?tr \<and> set (keys ?tr) = set (keys corpus)"
      by (rule conjI)
    then show ?thesis by (rule exI)
  next
    case False
    have "transition_model corpus page d = Inr (linked_table corpus links d)"
      using l False by (rule transition_model_links)
    moreover have "set (keys (linked_table corpus links d)) = set (keys corpus)"
      using sub linked_table_keys [of corpus links d] by blast
    ultimately have "transition_model corpus page d = Inr (linked_table corpus links d) \<and>
        set (keys (linked_table corpus links d)) = set (keys corpus)"
      by (rule conjI)
    then show ?thesis by (rule exI)
  qed
qed

lemma draw_loop:
  assumes "rng_ok rnd" and "links_closed corpus" and "cur \<in> set (keys corpus)"
  shows "\<exists>cur' new.
           for_each xs
             (\<lambda>i (current_page, samples).
                err_bind (transition_model corpus current_page d) (\<lambda>transitions.
                  let next_page = choices rnd i (keys transitions) (dict_values transitions)
                  in Inr (next_page, samples @ [next_page])))
             (cur, samples) = Inr (cur', samples @ new) \<and>
           length new = length xs \<and> set new \<subseteq> set (keys corpus)"
  using assms(3)
proof (induction xs arbitrary: cur samples)
  case Nil
  then show ?case by simp
next
  case (Cons i xs)
  from transition_model_keys [OF assms(2) Cons.prems, of d]
  obtain tr where tr: "transition_model corpus cur d = Inr tr" "set (keys tr) = set (keys corpus)"
    by blast
  from tr(2) Cons.prems have "keys tr \<noteq> []" by auto
  with assms(1) have "choices rnd i (keys tr) (dict_values tr) \<in> set (keys tr)"
    unfolding rng_ok_def by blast
  with tr(2) have nxt: "choices rnd i (keys tr) (dict_values tr) \<in> set (keys corpus)" by simp
  from Cons.IH [OF nxt, of "samples @ [choices rnd i (keys tr) (dict_values tr)]"]
  obtain cur' new where
    "for_each xs
             (\<lambda>i (current_page, samples).
                err_bind (transition_model corpus current_page d) (\<lambda>transitions.
                  let next_page = choices rnd i (keys transitions) (dict_values transitions)
                  in Inr (next_page, samples @ [next_page])))
             (choices rnd i (keys tr) (dict_values tr), samples @ [choices rnd i (keys tr) (dict_values tr)])
      = Inr (cur', (samples @ [choices rnd i (keys tr) (dict_values tr)]) @ new)"
    and "length new = length xs" and "set new \<subseteq> set (keys corpus)"
    by blast
  then show ?case using tr(1) nxt
    by (intro exI [of _ cur'] exI [of _ "choices rnd i (keys tr) (dict_values tr) # new"])
       (simp add: err_bind_def Let_def)
qed

lemma draw_samples_total:
  assumes "rng_ok rnd" and "links_closed corpus" and "start \<in> set (keys corpus)"
  shows "\<exists>cur samples. draw_samples rnd corpus d n start = Inr (cur, samples) \<and>
           length samples = nat n \<and> set samples \<subseteq> set (keys corpus)"
  using draw_loop [OF assms, of "[0..<nat n]" d "[]"] unfolding draw_samples_def by auto

lemma count_loop:
  assumes "set samples \<subseteq> set (keys sd)"
  shows "\<exists>sd'. for_each samples
                 (\<lambda>vals sd. err_bind (lookup sd vals) (\<lambda>c. Inr (dict_set sd vals (c + 1)))) sd
               = Inr sd' \<and>
           keys sd' = keys sd \<and>
           (\<forall>p. map_of sd' p = map_option (\<lambda>c. c + real (count_list samples p)) (map_of sd p))"
  using assms
proof (induction samples arbitrary: sd)
  case Nil
  then show ?case by (simp add: option.map_ident)
next
  case (Cons x xs)
  from Cons.prems have x: "x \<in> set (keys sd)" by simp
  then have "\<exists>c. lookup sd x = Inr c" by (rule lookup_total)
  then obtain c where c: "lookup sd x = Inr c" ..
  then have mc: "map_of sd x = Some c" by (simp add: lookup_Inr_iff)
  let ?sd1 = "dict_set sd x (c + 1)"
  have k1: "keys ?sd1 = keys sd" using x by (simp add: update_keys)
  with Cons.prems have "set xs \<subseteq> set (keys ?sd1)" by simp
  from Cons.IH [OF this] obtain sd' where
    run: "for_each xs (\<lambda>vals sd. err_bind (lookup sd vals) (\<lambda>c. Inr (dict_set sd vals (c + 1)))) ?sd1
          = Inr sd'"
    and k': "keys sd' = keys ?sd1"
    and m': "\<And>p. map_of sd' p = map_option (\<lambda>c. c + real (count_list xs p)) (map_of ?sd1 p)"
    by blast
  have m: "map_of sd' p = map_option (\<lambda>c. c + real (count_list (x # xs) p)) (map_of sd p)" for p
  proof (cases "p = x")
    case True
    then show ?thesis unfolding m' update_conv' using mc by simp
  next
    case False
    then show ?thesis unfolding m' update_conv' by simp
  qed
  have "for_each (x # xs) (\<lambda>vals sd. err_bind (lookup sd vals) (\<lambda>c. Inr (dict_set sd vals (c + 1)))) sd
          = Inr sd'"
    using c run by (simp add: err_bind_def)
  moreover have "keys sd' = keys sd" using k' k1 by simp
  ultimately show ?case using m by blast
qed

lemma normalise_loop:
  assumes "n \<noteq> 0" and "distinct (keys items)" and "set (keys items) \<subseteq> set (keys sd)"
  shows "\<exists>sd'. for_each items
                 (\<lambda>(ks, vals) sd. err_bind (py_div vals n) (\<lambda>q. Inr (dict_set sd ks q))) sd
               = Inr sd' \<and>
           keys sd' = keys sd \<and>
           (\<forall>p. map_of sd' p =
              (if p \<in> set (keys items) then map_option (\<lambda>v. v / n) (map_of items p)
               else map_of sd p))"
  using assms(2,3)
proof (induction items arbitrary: sd)
  case Nil
  then show ?case by simp
next
  case (Cons kv items)
  obtain k v where kv: "kv = (k, v)" by (cases kv)
  let ?sd1 = "dict_set sd k (v / n)"
  from Cons.prems kv have k: "k \<in> set (keys sd)" "k \<notin> set (keys items)" "distinct (keys items)"
    by auto
  have k1: "keys ?sd1 = keys sd" using k(1) by (simp add: update_keys)
  with Cons.prems have "set (keys items) \<subseteq> set (keys ?sd1)" by simp
  from Cons.IH [OF k(3) this] obtain sd' where
    run: "for_each items (\<lambda>(ks, vals) sd. err_bind (py_div vals n) (\<lambda>q. Inr (dict_set sd ks q))) ?sd1
          = Inr sd'"
    and k': "keys sd' = keys ?sd1"
    and m': "\<And>p. map_of sd' p =
              (if p \<in> set (keys items) then map_option (\<lambda>v. v / n) (map_of items p)
               else map_of ?sd1 p)"
    by blast
  have m: "map_of sd' p =
          (if p \<in> set (keys (kv # items)) then map_option (\<lambda>v. v / n) (map_of (kv # items) p)
           else map_of sd p)" for p
  proof (cases "p = k")
    case True
    then show ?thesis unfolding m' update_conv' kv using k(2) by simp
  next
    case False
    then show ?thesis unfolding m' update_conv' kv by simp
  qed
  have "for_each (kv # items) (\<lambda>(ks, vals) sd. err_bind (py_div vals n) (\<lambda>q. Inr (dict_set sd ks q))) sd
          = Inr sd'"
    using run kv assms(1) by (simp add: err_bind_def py_div_def)
  moreover have "keys sd' = keys sd" using k' k1 by simp
  ultimately show ?case using m by blast
qed

lemma sum_count_list:
  assumes "distinct ks" and "set xs \<subseteq> set ks"
  shows "(\<Sum>k\<leftarrow>ks. real (count_list xs k)) = real (length xs)"
proof -
  have "(\<Sum>k\<leftarrow>ks. count_list xs k) = sum (count_list xs) (set ks)"
    using assms(1) by (simp add: sum_list_distinct_conv_sum_set)
  also have "\<dots> = length xs" using assms(2) by (simp add: sum_count_set)
  finally have "(\<Sum>k\<leftarrow>ks. count_list xs k) = length xs" .
  moreover have "(\<Sum>k\<leftarrow>ks. real (count_list xs k)) = real (\<Sum>k\<leftarrow>ks. count_list xs k)"
    by (induction ks) simp_all
  ultimately show ?thesis by simp
qed


lemma sum_list_divide_const:
  "(\<Sum>k\<leftarrow>ks. f k / (c :: real)) = (\<Sum>k\<leftarrow>ks. f k) / c"
  by (induction ks) (simp_all add: add_divide_distrib)

lemma map_of_table:
  "map_of (map (\<lambda>k. (k, f k)) ks) p = (if p \<in> set ks then Some (f p) else None)"
  by (induction ks) simp_all

lemma keys_table: "keys (map (\<lambda>k. (k, f k)) ks) = ks"
  by (induction ks) simp_all

lemma init_counts:
  assumes "distinct (keys corpus)"
  shows "fold (\<lambda>pages sd. dict_set sd pages (0 :: real)) (keys corpus) [] =
         map (\<lambda>k. (k, 0)) (keys corpus)"
  using fold_set_fresh [OF assms, of "[]" "0 :: real"] by simp

lemma count_samples_result:
  assumes "distinct (keys corpus)" and "set samples \<subseteq> set (keys corpus)"
  shows "count_samples corpus samples =
         Inr (map (\<lambda>k. (k, real (count_list samples k))) (keys corpus))"
proof -
  let ?sd0 = "map (\<lambda>k. (k, 0 :: real)) (keys corpus)"
  have k0: "keys ?sd0 = keys corpus" by (rule keys_table)
  have m0: "map_of ?sd0 p = (if p \<in> set (keys corpus) then Some 0 else None)" for p
    by (rule map_of_table)
  from assms(2) k0 have "set samples \<subseteq> set (keys ?sd0)" by simp
  from count_loop [OF this] obtain sd' where
    run: "for_each samples
            (\<lambda>vals sd. err_bind (lookup sd vals) (\<lambda>c. Inr (dict_set sd vals (c + 1)))) ?sd0 = Inr sd'"
    and k': "keys sd' = keys ?sd0"
    and m': "\<And>p. map_of sd' p = map_option (\<lambda>c. c + real (count_list samples p)) (map_of ?sd0 p)"
    by blast
  have m: "map_of sd' p = (if p \<in> set (keys corpus) then Some (real (count_list samples p)) else None)"
    for p unfolding m' m0 by simp
  from k' k0 have ks: "keys sd' = keys corpus" by simp
  with assms(1) have "distinct (keys sd')" by simp
  then have "sd' = map (\<lambda>k. (k, the (map_of sd' k))) (keys sd')" by (rule dict_eq_map)
  also have "\<dots> = map (\<lambda>k. (k, real (count_list samples k))) (keys corpus)"
    unfolding ks by (rule map_cong) (simp_all add: m)
  finally have "sd' = map (\<lambda>k. (k, real (count_list samples k))) (keys corpus)" .
  with run show ?thesis unfolding count_samples_def init_counts [OF assms(1)] by simp
qed

lemma normalise_result:
  assumes "n \<noteq> 0" and "distinct ks"
  shows "normalise (map (\<lambda>k. (k, f k)) ks) n = Inr (map (\<lambda>k. (k, f k / of_int n)) ks)"
proof -
  let ?sd = "map (\<lambda>k. (k, f k)) ks"
  have k0: "keys ?sd = ks" by (rule keys_table)
  have m0: "map_of ?sd p = (if p \<in> set ks then Some (f p) else None)" for p
    by (rule map_of_table)
  from assms(1) have n: "real_of_int n \<noteq> 0" by simp
  have d: "distinct (keys ?sd)" using assms(2) k0 by simp
  from normalise_loop [OF n d subset_refl] obtain sd' where
    run: "for_each ?sd (\<lambda>(ks, vals) sd. err_bind (py_div vals (of_int n)) (\<lambda>q. Inr (dict_set sd ks q))) ?sd
          = Inr sd'"
    and k': "keys sd' = keys ?sd"
    and m': "\<And>p. map_of sd' p =
              (if p \<in> set (keys ?sd) then map_option (\<lambda>v. v / of_int n) (map_of ?sd p)
               else map_of ?sd p)"
    by blast
  have m: "map_of sd' p = (if p \<in> set ks then Some (f p / of_int n) else None)"
    for p unfolding m' m0 k0 by simp
  from k' k0 have ks: "keys sd' = ks" by simp
  with assms(2) have "distinct (keys sd')" by simp
  then have "sd' = map (\<lambda>k. (k, the (map_of sd' k))) (keys sd')" by (rule dict_eq_map)
  also have "\<dots> = map (\<lambda>k. (k, f k / of_int n)) ks"
    unfolding ks by (rule map_cong) (simp_all add: m)
  finally have "sd' = map (\<lambda>k. (k, f k / of_int n)) ks" .
  with run show ?thesis unfolding normalise_def by simp
qed

subsection \<open>The returned table\<close>

text \<open>
  Claim C9. For a non-empty corpus and \<open>n \<ge> 1\<close>, with a random source whose draws return
  elements of the population, the \<open>n\<close> draws succeed and \<open>sample_pagerank\<close> returns a table
  with one entry for every page of the corpus, in the order of the corpus: the number of
  times the page occurs among the \<open>n\<close> recorded samples, divided by \<open>n\<close> (so \<open>0\<close> for a
  page that was never drawn). Every value lies between \<open>0\<close> and \<open>1\<close>, and the values sum to
  \<open>1\<close>. This holds for every damping factor.
\<close>

theorem sample_pagerank_visit_frequencies:
  assumes "rng_ok rnd" and "distinct (keys corpus)" and "links_closed corpus"
    and "corpus \<noteq> []" and "1 \<le> n"
  shows "\<exists>cur samples.
           draw_samples rnd corpus d n (choice rnd (keys corpus)) = Inr (cur, samples) \<and>
           length samples = nat n \<and>
           sample_pagerank rnd corpus d n =
             Inr (map (\<lambda>p. (p, real (count_list samples p) / of_int n)) (keys corpus)) \<and>
           (\<forall>p. 0 \<le> real (count_list samples p) / of_int n \<and>
                real (count_list samples p) / of_int n \<le> 1) \<and>
           \<bar>(\<Sum>p\<leftarrow>keys corpus. real (count_list samples p) / of_int n) - 1\<bar> \<le> 1 / 10 ^ 9"
proof -
  from assms(4) have ne: "keys corpus \<noteq> []" by simp
  with assms(1) have start: "choice rnd (keys corpus) \<in> set (keys corpus)"
    unfolding rng_ok_def by blast
  from draw_samples_total [OF assms(1,3) start, of d n] obtain cur samples where
    draw: "draw_samples rnd corpus d n (choice rnd (keys corpus)) = Inr (cur, samples)"
    and len: "length samples = nat n" and sub: "set samples \<subseteq> set (keys corpus)"
    by blast
  from assms(5) have n0: "n \<noteq> 0" by simp
  from assms(5) len have nlen: "real_of_int n = real (length samples)" by simp
  from assms(5) have npos: "0 < real_of_int n" by simp
  have cnt: "count_samples corpus samples =
         Inr (map (\<lambda>k. (k, real (count_list samples k))) (keys corpus))"
    using assms(2) sub by (rule count_samples_result)
  have nrm: "normalise (map (\<lambda>k. (k, real (count_list samples k))) (keys corpus)) n =
         Inr (map (\<lambda>k. (k, real (count_list samples k) / of_int n)) (keys corpus))"
    using n0 assms(2) by (rule normalise_result)
  have res: "sample_pagerank rnd corpus d n =
             Inr (map (\<lambda>p. (p, real (count_list samples p) / of_int n)) (keys corpus))"
    using ne draw cnt nrm by (simp add: sample_pagerank_def err_bind_def)
  have bounds: "0 \<le> real (count_list samples p) / of_int n \<and>
                real (count_list samples p) / of_int n \<le> 1" for p
  proof -
    have "count_list samples p \<le> length samples" by (rule count_le_length)
    then have "real (count_list samples p) \<le> real_of_int n" unfolding nlen by simp
    with npos show ?thesis by simp
  qed
  have "(\<Sum>p\<leftarrow>keys corpus. real (count_list samples p) / of_int n) =
        (\<Sum>p\<leftarrow>keys corpus. real (count_list samples p)) / of_int n"
    by (rule sum_list_divide_const)
  also have "\<dots> = real (length samples) / of_int n"
    using sum_count_list [OF assms(2) sub] by simp
  also have "\<dots> = 1" using nlen npos by simp
  finally have "(\<Sum>p\<leftarrow>keys corpus. real (count_list samples p) / of_int n) = 1" .
  then have "\<bar>(\<Sum>p\<leftarrow>keys corpus. real (count_list samples p) / of_int n) - 1\<bar> \<le> 1 / 10 ^ 9"
    by simp
  with draw len res bounds show ?thesis by blast
qed

lemma first_last_rng_ok: "rng_ok first_last_rng"
  by (simp add: rng_ok_def first_last_rng_def)

text \<open>The theorem at a two-page corpus, three draws and the random source
  \<open>first_last_rng\<close>.\<close>

theorem sample_pagerank_visit_frequencies_witness:
  "\<exists>cur samples.
     draw_samples first_last_rng [(''A.html'', [''B.html'']), (''B.html'', [])] 0.85 3 ''A.html''
       = Inr (cur, samples) \<and>
     length samples = 3 \<and>
     sample_pagerank first_last_rng [(''A.html'', [''B.html'']), (''B.html'', [])] 0.85 3 =
       Inr [(''A.html'', real (count_list samples ''A.html'') / 3),
            (''B.html'', real (count_list samples ''B.html'') / 3)] \<and>
     sample_pagerank first_last_rng [(''A.html'', [''B.html'']), (''B.html'', [])] 0.85 3 =
       Inr [(''A.html'', 1 / 3), (''B.html'', 2 / 3)] \<and>
     \<bar>real (count_list samples ''A.html'') / 3 + real (count_list samples ''B.html'') / 3 - 1\<bar>
       \<le> 1 / 10 ^ 9"
proof -
  let ?c = "[(''A.html'', [''B.html'']), (''B.html'', [])]"
  have d: "distinct (keys ?c)" by simp
  have l: "links_closed ?c" by (simp add: links_closed_def)
  have ne: "?c \<noteq> []" by simp
  have n: "(1 :: int) \<le> 3" by simp
  have run: "sample_pagerank first_last_rng ?c 0.85 3 = Inr [(''A.html'', 1 / 3), (''B.html'', 2 / 3)]"
    by (simp add: sample_pagerank_def draw_samples_def count_samples_def normalise_def
        first_last_rng_def transition_model_def err_bind_def lookup_def py_div_def len_set_def
        py_round4_def round_half_even_def Let_def upt_rec)
  from sample_pagerank_visit_frequencies [OF first_last_rng_ok d l ne n, of "0.85"]
  obtain cur samples where
    "draw_samples first_last_rng ?c 0.85 3 (choice first_last_rng (keys ?c)) = Inr (cur, samples)"
    "length samples = nat 3"
    "sample_pagerank first_last_rng ?c 0.85 3 =
       Inr (map (\<lambda>p. (p, real (count_list samples p) / of_int 3)) (keys ?c))"
    "\<bar>(\<Sum>p\<leftarrow>keys ?c. real (count_list samples p) / of_int 3) - 1\<bar> \<le> 1 / 10 ^ 9"
    by blast
  with run show ?thesis
    by (intro exI [of _ cur] exI [of _ samples]) (simp add: first_last_rng_def)
qed

section \<open>Properties of \<open>iterate_pagerank\<close>\<close>

subsection \<open>The tables built before the loop\<close>

lemma init_loop:
  assumes "real (length corpus) \<noteq> 0"
  shows "for_each ks
           (\<lambda>pages (iterative_probablity, cross_link_corpus).
              err_bind (py_div 1 (real (length corpus))) (\<lambda>r.
                Inr (dict_set iterative_probablity pages r, dict_set cross_link_corpus pages [])))
           (ip, clc) =
         Inr (fold (\<lambda>k t. dict_set t k (1 / real (length corpus))) ks ip,
              fold (\<lambda>k t. dict_set t k []) ks clc)"
  using assms by (induction ks arbitrary: ip clc) (simp_all add: err_bind_def py_div_def)

lemma init_tables_result:
  "init_tables corpus =
     Inr (fold (\<lambda>k t. dict_set t k (1 / real (length corpus))) (keys corpus) [],
          fold (\<lambda>k t. dict_set t k []) (keys corpus) [])"
proof (cases "corpus = []")
  case True
  then show ?thesis by (simp add: init_tables_def)
next
  case False
  then have "real (length corpus) \<noteq> 0" by simp
  then show ?thesis unfolding init_tables_def by (rule init_loop)
qed

lemma init_backlinks_ok:
  "backlinks_ok corpus (fold (\<lambda>k t. dict_set t k []) (keys corpus) [])"
proof -
  let ?clc = "fold (\<lambda>k t. dict_set t k ([] :: page list)) (keys corpus) []"
  have "set (keys ?clc) = set (keys corpus)"
    using fold_set_keys [of "[] :: page list" "keys corpus" "[]"] by simp
  moreover have "bl = []" if "map_of ?clc p = Some bl" for p bl
    using that unfolding fold_set_map_of by (simp split: if_splits)
  ultimately show ?thesis unfolding backlinks_ok_def by fastforce
qed

lemma backlinks_step:
  assumes ok: "backlinks_ok corpus clc" and pg: "page \<in> set (keys corpus)"
    and ks: "ks \<in> set (keys corpus)"
  shows "\<exists>clc'. err_bind (lookup corpus ks) (\<lambda>links.
                 if page \<in> set links
                 then err_bind (lookup clc page) (\<lambda>bl. Inr (dict_set clc page (bl @ [ks])))
                 else Inr clc) = Inr clc' \<and> backlinks_ok corpus clc'"
proof -
  from ks have "\<exists>links. lookup corpus ks = Inr links" by (rule lookup_total)
  then obtain links where l: "lookup corpus ks = Inr links" ..
  then have ml: "map_of corpus ks = Some links" by (simp add: lookup_Inr_iff)
  show ?thesis
  proof (cases "page \<in> set links")
    case False
    with l ok show ?thesis by (simp add: err_bind_def)
  next
    case True
    from ok pg have "page \<in> set (keys clc)" unfolding backlinks_ok_def by blast
    then have "\<exists>bl. lookup clc page = Inr bl" by (rule lookup_total)
    then obtain bl where b: "lookup clc page = Inr bl" ..
    then have mb: "map_of clc page = Some bl" by (simp add: lookup_Inr_iff)
    let ?clc' = "dict_set clc page (bl @ [ks])"
    have k: "set (keys ?clc') = set (keys corpus)"
      using ok \<open>page \<in> set (keys clc)\<close> unfolding backlinks_ok_def
      by (simp add: update_keys)
    have "\<exists>links. map_of corpus q = Some links \<and> p \<in> set links"
      if "map_of ?clc' p = Some bl'" and "q \<in> set bl'" for p bl' q
    proof (cases "p = page")
      case p: True
      with that(1) have "bl' = bl @ [ks]" by (simp add: update_conv')
      with that(2) have "q \<in> set bl \<or> q = ks" by auto
      then show ?thesis
      proof
        assume "q \<in> set bl"
        with ok mb p show ?thesis unfolding backlinks_ok_def by blast
      next
        assume "q = ks"
        with ml True p show ?thesis by simp
      qed
    next
      case False
      with that(1) have "map_of clc p = Some bl'" by (simp add: update_conv')
      with ok that(2) show ?thesis unfolding backlinks_ok_def by blast
    qed
    with k have "backlinks_ok corpus ?clc'" unfolding backlinks_ok_def by blast
    with l True b show ?thesis by (simp add: err_bind_def)
  qed
qed

lemma add_backlinks_total:
  assumes "backlinks_ok corpus clc0"
  shows "\<exists>clc. add_backlinks corpus clc0 = Inr clc \<and> backlinks_ok corpus clc"
  unfolding add_backlinks_def
proof (rule for_each_total [where I = "backlinks_ok corpus"])
  show "backlinks_ok corpus clc0" by (rule assms)
next
  fix page clc
  assume page: "page \<in> set (keys clc0)" and ok: "backlinks_ok corpus clc"
  from page assms have pg: "page \<in> set (keys corpus)" unfolding backlinks_ok_def by blast
  show "\<exists>clc'. for_each (keys corpus)
            (\<lambda>ks clc.
               err_bind (lookup corpus ks) (\<lambda>links.
                 if page \<in> set links
                 then err_bind (lookup clc page) (\<lambda>bl. Inr (dict_set clc page (bl @ [ks])))
                 else Inr clc))
            clc = Inr clc' \<and> backlinks_ok corpus clc'"
  proof (rule for_each_total [where I = "backlinks_ok corpus"])
    show "backlinks_ok corpus clc" by (rule ok)
  next
    fix ks clc1
    assume "ks \<in> set (keys corpus)" and "backlinks_ok corpus clc1"
    with pg show "\<exists>clc'. err_bind (lookup corpus ks) (\<lambda>links.
                 if page \<in> set links
                 then err_bind (lookup clc1 page) (\<lambda>bl. Inr (dict_set clc1 page (bl @ [ks])))
                 else Inr clc1) = Inr clc' \<and> backlinks_ok corpus clc'"
      by (intro backlinks_step)
  qed
qed

lemma setup_tables_total:
  "\<exists>clc. setup_tables corpus =
           Inr (fold (\<lambda>k t. dict_set t k (1 / real (length corpus))) (keys corpus) [], clc) \<and>
         backlinks_ok corpus clc"
proof -
  from add_backlinks_total [OF init_backlinks_ok] obtain clc where
    "add_backlinks corpus (fold (\<lambda>k t. dict_set t k []) (keys corpus) []) = Inr clc"
    and "backlinks_ok corpus clc" by blast
  then show ?thesis
    unfolding setup_tables_def init_tables_result by (simp add: err_bind_def)
qed

subsection \<open>No step of a pass raises\<close>

lemma len_set_pos: "x \<in> set xs \<Longrightarrow> real (len_set xs) \<noteq> 0"
  by (auto simp: len_set_def)

lemma backlink_has_links:
  assumes "backlinks_ok corpus clc" and "lookup clc p = Inr bl" and "q \<in> set bl"
  shows "\<exists>links. lookup corpus q = Inr links \<and> p \<in> set links \<and> len_set links \<noteq> 0"
proof -
  from assms(2) have "map_of clc p = Some bl" by (simp add: lookup_Inr_iff)
  with assms(1,3) obtain links where "map_of corpus q = Some links" and "p \<in> set links"
    unfolding backlinks_ok_def by blast
  moreover from this(2) have "len_set links \<noteq> 0" by (auto simp: len_set_def)
  ultimately show ?thesis by (simp add: lookup_Inr_iff)
qed

lemma ranged_sum_links_step:
  assumes "backlinks_ok corpus clc" and "lookup clc p = Inr bl" and "q \<in> set bl"
  shows "\<exists>links. lookup corpus q = Inr links \<and> len_set links \<noteq> 0 \<and>
           err_bind (lookup corpus q) (\<lambda>ls.
             let number_of_links = len_set ls
             in err_bind (lookup ip q) (\<lambda>r.
                  err_bind (py_div r (real number_of_links)) (\<lambda>x. Inr (ranged_sum + x)))) =
           (case lookup ip q of Inl e \<Rightarrow> Inl e
            | Inr r \<Rightarrow> Inr (ranged_sum + r / real (len_set links)))"
proof -
  from backlink_has_links [OF assms] obtain links where
    l: "lookup corpus q = Inr links" and n: "len_set links \<noteq> 0" by blast
  then have "lookup corpus q = Inr links \<and> len_set links \<noteq> 0 \<and>
           err_bind (lookup corpus q) (\<lambda>ls.
             let number_of_links = len_set ls
             in err_bind (lookup ip q) (\<lambda>r.
                  err_bind (py_div r (real number_of_links)) (\<lambda>x. Inr (ranged_sum + x)))) =
           (case lookup ip q of Inl e \<Rightarrow> Inl e
            | Inr r \<Rightarrow> Inr (ranged_sum + r / real (len_set links)))"
    by (simp add: err_bind_def py_div_def Let_def split: sum.splits)
  then show ?thesis by (rule exI)
qed

lemma ranged_sum_links_no_zero_division:
  assumes "backlinks_ok corpus clc" and "lookup clc p = Inr bl"
  shows "ranged_sum_links corpus ip bl \<noteq> Inl ZeroDivisionError"
proof
  assume "ranged_sum_links corpus ip bl = Inl ZeroDivisionError"
  from for_each_Inl [OF this [unfolded ranged_sum_links_def]] obtain q ranged_sum where
    q: "q \<in> set bl" and
    e: "err_bind (lookup corpus q) (\<lambda>ls.
            let number_of_links = len_set ls
            in err_bind (lookup ip q) (\<lambda>r.
                 err_bind (py_div r (real number_of_links)) (\<lambda>x. Inr (ranged_sum + x)))) =
     Inl ZeroDivisionError"
    by blast
  from ranged_sum_links_step [OF assms q, of ip ranged_sum] obtain links where
    "lookup corpus q = Inr links" and
    "err_bind (lookup corpus q) (\<lambda>ls.
            let number_of_links = len_set ls
            in err_bind (lookup ip q) (\<lambda>r.
                 err_bind (py_div r (real number_of_links)) (\<lambda>x. Inr (ranged_sum + x)))) =
     (case lookup ip q of Inl e \<Rightarrow> Inl e
      | Inr r \<Rightarrow> Inr (ranged_sum + r / real (len_set links)))"
    by blast
  with e have "(case lookup ip q of Inl e \<Rightarrow> Inl e
      | Inr r \<Rightarrow> Inr (ranged_sum + r / real (len_set links))) = Inl ZeroDivisionError"
    by simp
  then show False by (auto simp: lookup_Inl_iff split: sum.splits)
qed

lemma ranged_sum_links_total:
  assumes "backlinks_ok corpus clc" and "lookup clc p = Inr bl"
    and "set (keys ip) = set (keys corpus)"
  shows "\<exists>r. ranged_sum_links corpus ip bl = Inr r"
proof -
  have "\<exists>r. ranged_sum_links corpus ip bl = Inr r \<and> True"
    unfolding ranged_sum_links_def
  proof (rule for_each_total [where I = "\<lambda>_. True"])
    fix q and ranged_sum :: real
    assume q: "q \<in> set bl"
    from backlink_has_links [OF assms(1,2) q] have "q \<in> set (keys corpus)"
      by (auto dest: lookup_in_keys)
    with assms(3) have "q \<in> set (keys ip)" by simp
    then have "\<exists>r. lookup ip q = Inr r" by (rule lookup_total)
    then obtain r where r: "lookup ip q = Inr r" ..
    from ranged_sum_links_step [OF assms(1,2) q, of ip ranged_sum] obtain links where
      "lookup corpus q = Inr links" and
      "err_bind (lookup corpus q) (\<lambda>ls.
            let number_of_links = len_set ls
            in err_bind (lookup ip q) (\<lambda>r.
                 err_bind (py_div r (real number_of_links)) (\<lambda>x. Inr (ranged_sum + x)))) =
       (case lookup ip q of Inl e \<Rightarrow> Inl e
        | Inr r \<Rightarrow> Inr (ranged_sum + r / real (len_set links)))"
      by blast
    with r show "\<exists>s'. err_bind (lookup corpus q) (\<lambda>ls.
            let number_of_links = len_set ls
            in err_bind (lookup ip q) (\<lambda>r.
                 err_bind (py_div r (real number_of_links)) (\<lambda>x. Inr (ranged_sum + x)))) = Inr s' \<and> True"
      by simp
  qed simp
  then show ?thesis by simp
qed

lemma ranged_sum_all_total:
  assumes "set (keys ip) = set (keys corpus)"
  shows "\<exists>r. ranged_sum_all corpus ip = Inr r"
proof -
  have "\<exists>r. ranged_sum_all corpus ip = Inr r \<and> True"
    unfolding ranged_sum_all_def
  proof (rule for_each_total [where I = "\<lambda>_. True"])
    fix pages and ranged_sum :: real
    assume pg: "pages \<in> set (keys ip)"
    then have "\<exists>r. lookup ip pages = Inr r" by (rule lookup_total)
    then obtain r where r: "lookup ip pages = Inr r" ..
    from pg assms have "pages \<in> set (keys corpus)" by simp
    then have "\<exists>links. lookup corpus pages = Inr links" by (rule lookup_total)
    then obtain links where l: "lookup corpus pages = Inr links" ..
    show "\<exists>s'. err_bind (lookup corpus pages) (\<lambda>links.
            let number_of_links = len_set links
            in if number_of_links \<noteq> 0
               then err_bind (lookup ip pages) (\<lambda>r.
                      err_bind (py_div r (real number_of_links)) (\<lambda>q. Inr (ranged_sum + q)))
               else Inr ranged_sum) = Inr s' \<and> True"
      using r l by (simp add: err_bind_def py_div_def Let_def)
  qed simp
  then show ?thesis by simp
qed

lemma page_body_total:
  assumes ok: "backlinks_ok corpus clc"
    and inv: "set (keys (iterative_probablity st)) = set (keys corpus)"
    and pg: "pages \<in> set (keys corpus)"
  shows "\<exists>st'. page_body corpus clc d pages st = Inr st' \<and>
           set (keys (iterative_probablity st')) = set (keys corpus)"
proof -
  from ok pg have "pages \<in> set (keys clc)" unfolding backlinks_ok_def by blast
  then have "\<exists>bl. lookup clc pages = Inr bl" by (rule lookup_total)
  then obtain bl where bl: "lookup clc pages = Inr bl" ..
  show ?thesis
  proof (cases "bl = []")
    case True
    from ranged_sum_all_total [OF inv] obtain r where
      "ranged_sum_all corpus (iterative_probablity st) = Inr r" ..
    with bl True inv show ?thesis by (simp add: page_body_def err_bind_def)
  next
    case False
    from ranged_sum_links_total [OF ok bl inv] obtain r where
      r: "ranged_sum_links corpus (iterative_probablity st) bl = Inr r" ..
    from pg have n: "real (length corpus) \<noteq> 0" by auto
    from pg inv have "pages \<in> set (keys (iterative_probablity st))" by simp
    then have "\<exists>old. lookup (iterative_probablity st) pages = Inr old" by (rule lookup_total)
    then obtain old where old: "lookup (iterative_probablity st) pages = Inr old" ..
    have "set (keys (dict_set (iterative_probablity st) pages v)) = set (keys corpus)" for v
      using inv pg by (auto simp: dom_update)
    with bl False r n old show ?thesis
      by (simp add: page_body_def err_bind_def py_div_def Let_def)
  qed
qed

lemma pass_total:
  assumes "backlinks_ok corpus clc"
    and "set (keys (iterative_probablity st)) = set (keys corpus)"
  shows "\<exists>st'. pass corpus clc d st = Inr st' \<and>
           set (keys (iterative_probablity st')) = set (keys corpus)"
  unfolding pass_def
proof (rule for_each_total
    [where I = "\<lambda>st. set (keys (iterative_probablity st)) = set (keys corpus)"])
  show "set (keys (iterative_probablity st)) = set (keys corpus)" by (rule assms(2))
next
  fix pages and st1 :: loop_vars
  assume "pages \<in> set (keys (iterative_probablity st))"
    and inv: "set (keys (iterative_probablity st1)) = set (keys corpus)"
  with assms(2) have "pages \<in> set (keys corpus)" by simp
  with assms(1) inv show "\<exists>st'. page_body corpus clc d pages st1 = Inr st' \<and>
           set (keys (iterative_probablity st')) = set (keys corpus)"
    by (rule page_body_total)
qed

lemma while_true_errors:
  assumes "backlinks_ok corpus clc"
    and "set (keys (iterative_probablity st)) = set (keys corpus)"
    and "while_true fuel corpus clc d st = Some (Inl e)"
  shows "e = UnboundLocalError"
  using assms(2,3)
proof (induction fuel arbitrary: st)
  case 0
  then show ?case by simp
next
  case (Suc fuel)
  from pass_total [OF assms(1) Suc.prems(1), of d] obtain st' where
    p: "pass corpus clc d st = Inr st'"
    and inv: "set (keys (iterative_probablity st')) = set (keys corpus)" by blast
  show ?case
  proof (cases "old_rank st'")
    case None
    with Suc.prems(2) p show ?thesis by simp
  next
    case old: (Some old)
    show ?thesis
    proof (cases "page_rank st'")
      case None
      with Suc.prems(2) p old show ?thesis by simp
    next
      case (Some pr)
      show ?thesis
      proof (cases "\<bar>old - pr\<bar> < 0.0001")
        case True
        with Suc.prems(2) p old Some show ?thesis by simp
      next
        case False
        with Suc.prems(2) p old Some have "while_true fuel corpus clc d st' = Some (Inl e)"
          by simp
        with inv show ?thesis by (rule Suc.IH)
      qed
    qed
  qed
qed

lemma iterate_pagerank_errors:
  assumes "iterate_pagerank fuel corpus d = Some (Inl e)"
  shows "e = UnboundLocalError"
proof -
  let ?ip = "fold (\<lambda>k t. dict_set t k (1 / real (length corpus))) (keys corpus) []"
  from setup_tables_total [of corpus] obtain clc where
    s: "setup_tables corpus = Inr (?ip, clc)" and ok: "backlinks_ok corpus clc" by blast
  have inv: "set (keys (iterative_probablity
      \<lparr>iterative_probablity = ?ip, old_rank = None, page_rank = None\<rparr>)) = set (keys corpus)"
    using fold_set_keys [of "1 / real (length corpus)" "keys corpus" "[]"] by simp
  from assms s have "while_true fuel corpus clc d
      \<lparr>iterative_probablity = ?ip, old_rank = None, page_rank = None\<rparr> = Some (Inl e)"
    by (simp add: iterate_pagerank_def)
  with ok inv show ?thesis by (rule while_true_errors)
qed

subsection \<open>The divisor of the backlink sum\<close>

text \<open>
  Claim C10. The code before the loop always succeeds, and in the backlink table it builds
  every page \<open>q\<close> listed under a page \<open>p\<close> is a page of the corpus whose links contain
  \<open>p\<close>, so \<open>len(corpus[q])\<close> is not \<open>0\<close>. Hence the sum over the backlinks of a page never
  raises \<open>ZeroDivisionError\<close>, whatever the ranks are, and neither does \<open>iterate_pagerank\<close>.
\<close>

theorem backlink_division_defined:
  "\<exists>ip clc. setup_tables corpus = Inr (ip, clc) \<and>
     (\<forall>p bl. lookup clc p = Inr bl \<longrightarrow>
        (\<forall>q \<in> set bl. \<exists>links. lookup corpus q = Inr links \<and> p \<in> set links \<and>
                                len_set links \<noteq> 0) \<and>
        (\<forall>ranks. ranged_sum_links corpus ranks bl \<noteq> Inl ZeroDivisionError)) \<and>
     (\<forall>fuel d. iterate_pagerank fuel corpus d \<noteq> Some (Inl ZeroDivisionError))"
proof -
  from setup_tables_total [of corpus] obtain ip clc where
    s: "setup_tables corpus = Inr (ip, clc)" and ok: "backlinks_ok corpus clc" by blast
  have "\<forall>q \<in> set bl. \<exists>links. lookup corpus q = Inr links \<and> p \<in> set links \<and> len_set links \<noteq> 0"
    if "lookup clc p = Inr bl" for p bl
    using backlink_has_links [OF ok that] by blast
  moreover have "\<forall>ranks. ranged_sum_links corpus ranks bl \<noteq> Inl ZeroDivisionError"
    if "lookup clc p = Inr bl" for p bl
    using ranged_sum_links_no_zero_division [OF ok that] by blast
  moreover have "\<forall>fuel d. iterate_pagerank fuel corpus d \<noteq> Some (Inl ZeroDivisionError)"
    using iterate_pagerank_errors by blast
  ultimately show ?thesis using s by blast
qed

text \<open>The theorem at a corpus of three pages, two of which link to the third.\<close>

theorem backlink_division_defined_witness:
  "\<exists>ip clc. setup_tables [(''A'', [''C'']), (''B'', [''C'']), (''C'', [])] = Inr (ip, clc) \<and>
     lookup clc ''C'' = Inr [''A'', ''B''] \<and>
     (\<exists>links. lookup [(''A'', [''C'']), (''B'', [''C'']), (''C'', [])] ''B'' = Inr links \<and>
        ''C'' \<in> set links \<and> len_set links \<noteq> 0) \<and>
     ranged_sum_links [(''A'', [''C'']), (''B'', [''C'']), (''C'', [])] ip [''A'', ''B'']
       \<noteq> Inl ZeroDivisionError \<and>
     iterate_pagerank 2 [(''A'', [''C'']), (''B'', [''C'']), (''C'', [])] 0.85
       \<noteq> Some (Inl ZeroDivisionError)"
proof -
  let ?c = "[(''A'', [''C'']), (''B'', [''C'']), (''C'', [])]"
  from backlink_division_defined [of ?c] obtain ip clc where
    s: "setup_tables ?c = Inr (ip, clc)"
    and b: "\<And>p bl. lookup clc p = Inr bl \<Longrightarrow>
        (\<forall>q \<in> set bl. \<exists>links. lookup ?c q = Inr links \<and> p \<in> set links \<and> len_set links \<noteq> 0) \<and>
        (\<forall>ranks. ranged_sum_links ?c ranks bl \<noteq> Inl ZeroDivisionError)"
    and i: "\<And>fuel d. iterate_pagerank fuel ?c d \<noteq> Some (Inl ZeroDivisionError)"
    by blast
  have "setup_tables ?c =
     Inr ([(''A'', 1 / 3), (''B'', 1 / 3), (''C'', 1 / 3)],
          [(''A'', []), (''B'', []), (''C'', [''A'', ''B''])])"
    by (simp add: setup_tables_def init_tables_def add_backlinks_def err_bind_def lookup_def
        py_div_def)
  with s have "clc = [(''A'', []), (''B'', []), (''C'', [''A'', ''B''])]" by simp
  then have l: "lookup clc ''C'' = Inr [''A'', ''B'']" by (simp add: lookup_def)
  from b [OF l] have
    "\<exists>links. lookup ?c ''B'' = Inr links \<and> ''C'' \<in> set links \<and> len_set links \<noteq> 0"
    and "ranged_sum_links ?c ip [''A'', ''B''] \<noteq> Inl ZeroDivisionError"
    by simp_all
  with s l i [of 2 "0.85"] show ?thesis by blast
qed

subsection \<open>More passes do not change a result\<close>

lemmas iterate_defs = iterate_pagerank_def setup_tables_def init_tables_def add_backlinks_def
  pass_def page_body_def ranged_sum_all_def ranged_sum_links_def err_bind_def lookup_def
  py_div_def len_set_def Let_def

lemma while_true_mono:
  "while_true fuel corpus clc d st = Some r \<Longrightarrow> while_true (fuel + k) corpus clc d st = Some r"
proof (induction fuel arbitrary: st)
  case 0
  then show ?case by simp
next
  case (Suc fuel)
  show ?case
  proof (cases "pass corpus clc d st")
    case (Inl e)
    with Suc.prems show ?thesis by simp
  next
    case (Inr st')
    show ?thesis
    proof (cases "\<exists>old pr. old_rank st' = Some old \<and> page_rank st' = Some pr \<and> \<not> \<bar>old - pr\<bar> < 0.0001")
      case True
      then obtain old pr where v: "old_rank st' = Some old" "page_rank st' = Some pr"
        "\<not> \<bar>old - pr\<bar> < 0.0001" by blast
      with Suc.prems Inr have "while_true fuel corpus clc d st' = Some r" by simp
      then have "while_true (fuel + k) corpus clc d st' = Some r" by (rule Suc.IH)
      with Inr v show ?thesis by simp
    next
      case False
      with Suc.prems Inr show ?thesis by (auto split: option.splits if_splits)
    qed
  qed
qed

lemma iterate_pagerank_mono:
  "iterate_pagerank fuel corpus d = Some r \<Longrightarrow> iterate_pagerank (fuel + k) corpus d = Some r"
  unfolding iterate_pagerank_def by (auto split: sum.splits dest: while_true_mono)

subsection \<open>Pages without backlinks\<close>

text \<open>A page whose list of backlinks is empty is skipped by every pass: it keeps the
  rank \<open>1 / N\<close> it started with.\<close>

lemma page_body_keeps_rank:
  assumes "lookup clc p = Inr []" and "page_body corpus clc d pages st = Inr st'"
  shows "map_of (iterative_probablity st') p = map_of (iterative_probablity st) p"
proof (cases "pages = p")
  case True
  with assms show ?thesis
    by (auto simp: page_body_def err_bind_def split: sum.splits)
next
  case False
  with assms(2) show ?thesis
    by (auto simp: page_body_def err_bind_def Let_def update_conv' split: sum.splits if_splits)
qed

lemma pass_keeps_rank:
  assumes "lookup clc p = Inr []" and "pass corpus clc d st = Inr st'"
  shows "map_of (iterative_probablity st') p = map_of (iterative_probablity st) p"
proof (rule for_each_preserves
    [where I = "\<lambda>s. map_of (iterative_probablity s) p = map_of (iterative_probablity st) p",
      OF assms(2) [unfolded pass_def]])
  show "map_of (iterative_probablity st) p = map_of (iterative_probablity st) p" ..
next
  fix pages and s s' :: loop_vars
  assume "map_of (iterative_probablity s) p = map_of (iterative_probablity st) p"
    and "page_body corpus clc d pages s = Inr s'"
  with page_body_keeps_rank [OF assms(1) this(2)]
  show "map_of (iterative_probablity s') p = map_of (iterative_probablity st) p" by simp
qed

lemma while_true_keeps_rank:
  assumes "lookup clc p = Inr []" and "while_true fuel corpus clc d st = Some (Inr ranks)"
  shows "map_of ranks p = map_of (iterative_probablity st) p"
  using assms(2)
proof (induction fuel arbitrary: st)
  case 0
  then show ?case by simp
next
  case (Suc fuel)
  from Suc.prems obtain st' where p: "pass corpus clc d st = Inr st'"
    by (auto split: sum.splits)
  from pass_keeps_rank [OF assms(1) p]
  have k: "map_of (iterative_probablity st') p = map_of (iterative_probablity st) p" .
  from Suc.prems p have
    "ranks = iterative_probablity st' \<or> while_true fuel corpus clc d st' = Some (Inr ranks)"
    by (auto split: option.splits if_splits)
  then show ?case
  proof
    assume "ranks = iterative_probablity st'"
    with k show ?thesis by simp
  next
    assume "while_true fuel corpus clc d st' = Some (Inr ranks)"
    then have "map_of ranks p = map_of (iterative_probablity st') p" by (rule Suc.IH)
    with k show ?thesis by simp
  qed
qed

lemma iterate_pagerank_keeps_initial_rank:
  assumes "setup_tables corpus = Inr (ip, clc)" and "lookup clc p = Inr []"
    and "iterate_pagerank fuel corpus d = Some (Inr ranks)"
  shows "lookup ranks p = Inr (1 / real (length corpus))"
proof -
  from assms(1,3) have "while_true fuel corpus clc d
      \<lparr>iterative_probablity = ip, old_rank = None, page_rank = None\<rparr> = Some (Inr ranks)"
    by (simp add: iterate_pagerank_def)
  from while_true_keeps_rank [OF assms(2) this] have m: "map_of ranks p = map_of ip p" by simp
  from setup_tables_total [of corpus] assms(1) obtain
    ip: "ip = fold (\<lambda>k t. dict_set t k (1 / real (length corpus))) (keys corpus) []"
    and ok: "backlinks_ok corpus clc" by auto
  from assms(2) have "p \<in> set (keys clc)" by (rule lookup_in_keys)
  with ok have "p \<in> set (keys corpus)" unfolding backlinks_ok_def by blast
  then have "map_of ip p = Some (1 / real (length corpus))"
    unfolding ip fold_set_map_of by simp
  with m show ?thesis by (simp add: lookup_Inr_iff)
qed

text \<open>
  Claim C1 (the update rule of the specification), at the corpus in which \<open>A\<close> and \<open>B\<close> link
  to \<open>C\<close> and \<open>C\<close> has no links, with the damping factor \<open>0.85\<close>. One pass leaves the
  ranks of \<open>A\<close> and \<open>B\<close> at \<open>1 / 3\<close>: they have no backlinks, their sum is computed and
  dropped. The rule of the specification gives \<open>A\<close> the rank \<open>13 / 90\<close>, from the page \<open>C\<close>
  without links, and gives \<open>C\<close> the rank \<open>32 / 45\<close>, where the pass stores \<open>37 / 60\<close>.
\<close>

theorem pass_keeps_rank_without_backlinks:
  "setup_tables [(''A'', [''C'']), (''B'', [''C'']), (''C'', [])] =
     Inr ([(''A'', 1 / 3), (''B'', 1 / 3), (''C'', 1 / 3)],
          [(''A'', []), (''B'', []), (''C'', [''A'', ''B''])]) \<and>
   pass [(''A'', [''C'']), (''B'', [''C'']), (''C'', [])]
        [(''A'', []), (''B'', []), (''C'', [''A'', ''B''])] 0.85
        \<lparr>iterative_probablity = [(''A'', 1 / 3), (''B'', 1 / 3), (''C'', 1 / 3)],
         old_rank = None, page_rank = None\<rparr> =
     Inr \<lparr>iterative_probablity = [(''A'', 1 / 3), (''B'', 1 / 3), (''C'', 37 / 60)],
          old_rank = Some (1 / 3), page_rank = Some (37 / 60)\<rparr> \<and>
   spec_rank [(''A'', [''C'']), (''B'', [''C'']), (''C'', [])] 0.85 (\<lambda>q. 1 / 3) ''A'' = 13 / 90 \<and>
   spec_rank [(''A'', [''C'']), (''B'', [''C'']), (''C'', [])] 0.85 (\<lambda>q. 1 / 3) ''C'' = 32 / 45"
  by (simp add: iterate_defs spec_rank_def spec_outlinks_def)

text \<open>
  Claim C2 (the returned ranks sum to \<open>1\<close> within \<open>0.001\<close>), at the same corpus: the loop
  stops after the second pass, and the ranks it returns sum to \<open>77 / 60\<close>.
\<close>

theorem iterate_pagerank_sum_not_one:
  "iterate_pagerank (Suc (Suc fuel)) [(''A'', [''C'']), (''B'', [''C'']), (''C'', [])] 0.85 =
     Some (Inr [(''A'', 1 / 3), (''B'', 1 / 3), (''C'', 37 / 60)]) \<and>
   sum_list (dict_values [(''A'', 1 / 3), (''B'', 1 / 3), (''C'', 37 / 60 :: real)]) = 77 / 60 \<and>
   \<not> \<bar>(77 / 60 :: real) - 1\<bar> \<le> 0.001"
  by (simp add: iterate_defs)

subsection \<open>The single-page corpus\<close>

text \<open>For the corpus of the single page \<open>A.html\<close> the sampling estimator returns the rank
  \<open>1\<close>.\<close>

lemma count_list_all: "set xs \<subseteq> {a} \<Longrightarrow> count_list xs a = length xs"
  by (induction xs) auto

lemma sample_pagerank_single_page:
  assumes "rng_ok rnd" and "1 \<le> n"
  shows "sample_pagerank rnd [(''A.html'', [])] 0.85 n = Inr [(''A.html'', 1)]"
proof -
  let ?c = "[(''A.html'', [])] :: corpus"
  have lc: "links_closed ?c" by (simp add: links_closed_def)
  have "keys ?c \<noteq> []" by simp
  with assms(1) have start: "choice rnd (keys ?c) \<in> set (keys ?c)"
    unfolding rng_ok_def by blast
  from draw_samples_total [OF assms(1) lc start, of "0.85" n] obtain cur samples where
    draw: "draw_samples rnd ?c 0.85 n (choice rnd (keys ?c)) = Inr (cur, samples)"
    and len: "length samples = nat n" and sub: "set samples \<subseteq> set (keys ?c)"
    by blast
  from sub have "count_list samples ''A.html'' = length samples"
    by (intro count_list_all) simp
  with len assms(2) have c: "real (count_list samples ''A.html'') = of_int n" by simp
  have cnt: "count_samples ?c samples =
         Inr (map (\<lambda>k. (k, real (count_list samples k))) (keys ?c))"
    using sub by (intro count_samples_result) simp_all
  from assms(2) have "n \<noteq> 0" by simp
  then have nrm: "normalise (map (\<lambda>k. (k, real (count_list samples k))) (keys ?c)) n =
         Inr (map (\<lambda>k. (k, real (count_list samples k) / of_int n)) (keys ?c))"
    by (intro normalise_result) simp_all
  from draw cnt nrm c assms(2) show ?thesis
    by (simp add: sample_pagerank_def err_bind_def)
qed

text \<open>
  Claim C3 (both estimators return the rank \<open>1\<close> for the single-page corpus), for
  \<open>iterate_pagerank\<close>: no page has a backlink, so the first pass updates no page, and the
  test after it reads \<open>old_rank\<close>, which was never assigned.
\<close>

theorem iterate_pagerank_single_page_fails:
  "iterate_pagerank (Suc fuel) [(''A.html'', [])] 0.85 = Some (Inl UnboundLocalError)"
  by (simp add: iterate_defs)

subsection \<open>The test after a pass\<close>

text \<open>
  Claim C4 (the loop stops exactly when the rank of the last page of the pass changed by less
  than \<open>0.0001\<close>), at the corpus in which \<open>A\<close> and \<open>B\<close> link to \<open>C\<close>, in the order
  \<open>C\<close>, \<open>A\<close>, \<open>B\<close>. The last page of the first pass is \<open>B\<close>, and its rank does not
  change; the test compares the old and the new rank of \<open>C\<close>, the last page that was
  updated, and the loop goes on to a second pass. At the single-page corpus no page is
  updated, and the test after the first pass raises instead of stopping the loop.
\<close>

theorem iterate_pagerank_stop_test_skips_last_page:
  "pass [(''C'', []), (''A'', [''C'']), (''B'', [''C''])]
        [(''C'', [''A'', ''B'']), (''A'', []), (''B'', [])] 0.85
        \<lparr>iterative_probablity = [(''C'', 1 / 3), (''A'', 1 / 3), (''B'', 1 / 3)],
         old_rank = None, page_rank = None\<rparr> =
     Inr \<lparr>iterative_probablity = [(''C'', 37 / 60), (''A'', 1 / 3), (''B'', 1 / 3)],
          old_rank = Some (1 / 3), page_rank = Some (37 / 60)\<rparr> \<and>
   iterate_pagerank 1 [(''C'', []), (''A'', [''C'']), (''B'', [''C''])] 0.85 = None \<and>
   iterate_pagerank 2 [(''C'', []), (''A'', [''C'']), (''B'', [''C''])] 0.85 =
     Some (Inr [(''C'', 37 / 60), (''A'', 1 / 3), (''B'', 1 / 3)]) \<and>
   pass [(''A.html'', [])] [(''A.html'', [])] 0.85
        \<lparr>iterative_probablity = [(''A.html'', 1)], old_rank = None, page_rank = None\<rparr> =
     Inr \<lparr>iterative_probablity = [(''A.html'', 1)], old_rank = None, page_rank = None\<rparr> \<and>
   iterate_pagerank 1 [(''A.html'', [])] 0.85 = Some (Inl UnboundLocalError)"
  by (simp add: iterate_defs numeral_2_eq_2)

end
